theory Spec2Isabelle
  imports Main "HOL-Library.Word" "HOL-Library.Multiset" "HOL-Library.Sublist"
begin

section \<open>Log routines of gpuvis\_utils.cpp\<close>

text \<open>
  The globals of the log subsystem (\<open>g_main_tid\<close>, \<open>g_log\<close>, \<open>g_thread_log\<close>,
  \<open>g_mutex\<close>) form one record. A \<open>char *\<close> entry is modelled by the text it points
  to. Two further fields record what the code does beyond the final contents of its
  globals. \<open>events\<close> is the order in which the code calls the SDL mutex functions and
  writes to \<open>g_thread_log\<close>, the buffer the mutex guards: every such call and every
  such write appends one event, so the trace shows whether a write lies between a lock
  and its unlock. \<open>freed\<close> lists the entries handed to \<open>free\<close>, in order.

  The operations are modelled as atomic steps on this record; a run of the program is a
  sequence of such steps.
\<close>

type_synonym SDL_threadID = "64 word"

type_synonym SDL_mutex = nat

datatype log_event =
    SDL_LockMutex "SDL_mutex option"
  | SDL_UnlockMutex "SDL_mutex option"
  | SDL_DestroyMutex "SDL_mutex option"
  | Thread_log_push_back string
  | Thread_log_clear

record log_state =
  g_main_tid :: SDL_threadID
  g_log :: "string list"
  g_thread_log :: "string list"
  g_mutex :: "SDL_mutex option"
  events :: "log_event list"
  freed :: "string list"

text \<open>The static initialisers: \<open>g_main_tid = -1\<close>, empty vectors, \<open>g_mutex = nullptr\<close>.\<close>

definition log_state_static :: log_state where
  "log_state_static =
     \<lparr>g_main_tid = - 1, g_log = [], g_thread_log = [], g_mutex = None,
      events = [], freed = []\<rparr>"

text \<open>
  \<open>logf_init\<close>: \<open>tid\<close> is what \<open>SDL_ThreadID()\<close> returns to the caller and \<open>m\<close> what
  \<open>SDL_CreateMutex()\<close> returns (\<open>None\<close> is a null pointer).
\<close>

definition logf_init :: "log_state \<Rightarrow> SDL_threadID \<Rightarrow> SDL_mutex option \<Rightarrow> log_state" where
  "logf_init s tid m = s\<lparr>g_main_tid := tid, g_mutex := m\<rparr>"

definition logf_shutdown :: "log_state \<Rightarrow> log_state" where
  "logf_shutdown s =
     s\<lparr>events := events s @ [SDL_DestroyMutex (g_mutex s)], g_mutex := None\<rparr>"

definition logf_get :: "log_state \<Rightarrow> string list" where
  "logf_get s = g_log s"

definition lock_mutex :: "log_state \<Rightarrow> log_state" where
  "lock_mutex s = s\<lparr>events := events s @ [SDL_LockMutex (g_mutex s)]\<rparr>"

definition unlock_mutex :: "log_state \<Rightarrow> log_state" where
  "unlock_mutex s = s\<lparr>events := events s @ [SDL_UnlockMutex (g_mutex s)]\<rparr>"

definition log_push_back :: "log_state \<Rightarrow> string \<Rightarrow> log_state" where
  "log_push_back s str = s\<lparr>g_log := g_log s @ [str]\<rparr>"

definition thread_log_push_back :: "log_state \<Rightarrow> string \<Rightarrow> log_state" where
  "thread_log_push_back s str =
     s\<lparr>g_thread_log := g_thread_log s @ [str],
       events := events s @ [Thread_log_push_back str]\<rparr>"

definition thread_log_clear :: "log_state \<Rightarrow> log_state" where
  "thread_log_clear s = s\<lparr>g_thread_log := [], events := events s @ [Thread_log_clear]\<rparr>"

definition free_str :: "log_state \<Rightarrow> string \<Rightarrow> log_state" where
  "free_str s str = s\<lparr>freed := freed s @ [str]\<rparr>"

text \<open>
  \<open>logf\<close>: \<open>tid\<close> is what \<open>SDL_ThreadID()\<close> returns to the caller and \<open>buf\<close> the
  pointer \<open>vasprintf\<close> leaves in \<open>buf\<close> (\<open>None\<close> when it is still null).
\<close>

definition logf :: "log_state \<Rightarrow> SDL_threadID \<Rightarrow> string option \<Rightarrow> log_state" where
  "logf s tid buf =
     (case buf of
        None \<Rightarrow> s
      | Some b \<Rightarrow>
          if tid = g_main_tid s then log_push_back s b
          else unlock_mutex (thread_log_push_back (lock_mutex s) b))"

definition logf_update :: "log_state \<Rightarrow> log_state" where
  "logf_update s =
     (if length (g_thread_log s) \<noteq> 0
      then
        let s1 = lock_mutex s;
            s2 = foldl log_push_back s1 (g_thread_log s1);
            s3 = thread_log_clear s2
        in unlock_mutex s3
      else s)"

definition logf_clear :: "log_state \<Rightarrow> log_state" where
  "logf_clear s =
     (let s1 = logf_update s;
          s2 = foldl free_str s1 (g_log s1)
      in s2\<lparr>g_log := []\<rparr>)"

subsection \<open>Runs of the log operations\<close>

datatype log_op = Append SDL_threadID "string option" | Drain

fun log_step :: "log_state \<Rightarrow> log_op \<Rightarrow> log_state" where
  "log_step s (Append tid buf) = logf s tid buf"
| "log_step s Drain = logf_update s"

definition log_run :: "log_state \<Rightarrow> log_op list \<Rightarrow> log_state" where
  "log_run s ops = foldl log_step s ops"

text \<open>
  The entries a run hands to \<open>logf\<close> with a non-null buffer, restricted to the calls
  whose thread identifier satisfies \<open>P\<close>, in call order.
\<close>

fun entries_of :: "(SDL_threadID \<Rightarrow> bool) \<Rightarrow> log_op list \<Rightarrow> string list" where
  "entries_of P [] = []"
| "entries_of P (Append t (Some b) # ops) =
     (if P t then b # entries_of P ops else entries_of P ops)"
| "entries_of P (Append t None # ops) = entries_of P ops"
| "entries_of P (Drain # ops) = entries_of P ops"

definition main_entries :: "SDL_threadID \<Rightarrow> log_op list \<Rightarrow> string list" where
  "main_entries m ops = entries_of (\<lambda>t. t = m) ops"

definition staged_entries :: "SDL_threadID \<Rightarrow> log_op list \<Rightarrow> string list" where
  "staged_entries m ops = entries_of (\<lambda>t. t \<noteq> m) ops"

definition all_entries :: "log_op list \<Rightarrow> string list" where
  "all_entries ops = entries_of (\<lambda>t. True) ops"

text \<open>
  The specification's reading of a run, written from its words: the run is cut at its
  \<open>Drain\<close> calls into segments of appends. Every segment that ends in a \<open>Drain\<close>
  contributes its main-thread entries in call order followed by the whole batch staged
  in that segment, in staging order; the segment after the last \<open>Drain\<close> contributes its
  main-thread entries only.
\<close>

fun segments :: "log_op list \<Rightarrow> log_op list list" where
  "segments [] = [[]]"
| "segments (Drain # ops) = [] # segments ops"
| "segments (Append t b # ops) = (Append t b # hd (segments ops)) # tl (segments ops)"

definition drained_segment :: "SDL_threadID \<Rightarrow> log_op list \<Rightarrow> string list" where
  "drained_segment m seg = main_entries m seg @ staged_entries m seg"

definition read_spec :: "SDL_threadID \<Rightarrow> log_op list \<Rightarrow> string list" where
  "read_spec m ops =
     concat (map (drained_segment m) (butlast (segments ops)))
     @ main_entries m (last (segments ops))"

section \<open>String replacement\<close>

text \<open>
  \<open>std::string::find(str, pos)\<close>: the lowest position \<open>p \<ge> pos\<close> at which \<open>str\<close>
  occurs in \<open>s\<close>, or \<open>npos\<close> (\<open>None\<close>). \<open>find_first\<close> scans a text from its start.
\<close>

primrec find_first :: "string \<Rightarrow> string \<Rightarrow> nat option" where
  "find_first search [] = (if search = [] then Some 0 else None)"
| "find_first search (x # xs) =
     (if prefix search (x # xs) then Some 0 else map_option Suc (find_first search xs))"

definition string_find :: "string \<Rightarrow> string \<Rightarrow> nat \<Rightarrow> nat option" where
  "string_find s search pos =
     (if pos \<le> length s then map_option (\<lambda>p. pos + p) (find_first search (drop pos s))
      else None)"

text \<open>
  \<open>s.erase(pos, n)\<close> and \<open>s.insert(pos, str)\<close>. Both throw for \<open>pos > s.length()\<close>;
  \<open>string_replace_str\<close> calls them at a position that \<open>find\<close> returned.
\<close>

definition string_erase :: "string \<Rightarrow> nat \<Rightarrow> nat \<Rightarrow> string" where
  "string_erase s pos n = take pos s @ drop (pos + n) s"

definition string_insert :: "string \<Rightarrow> nat \<Rightarrow> string \<Rightarrow> string" where
  "string_insert s pos str = take pos s @ str @ drop pos s"

text \<open>
  The loop of \<open>string_replace_str\<close>, entered with the current \<open>s\<close> and \<open>pos\<close>. The loop
  has no bound of its own, so a run that never leaves it has the value \<open>None\<close>.
\<close>

partial_function (option) string_replace_loop ::
    "string \<Rightarrow> string \<Rightarrow> string \<Rightarrow> nat \<Rightarrow> string option" where
  "string_replace_loop s search replace pos =
     (case string_find s search pos of
        None \<Rightarrow> Some s
      | Some p \<Rightarrow>
          string_replace_loop
            (string_insert (string_erase s p (length search)) p replace)
            search replace (p + length replace))"

declare string_replace_loop.simps [code]

definition string_replace_str :: "string \<Rightarrow> string \<Rightarrow> string \<Rightarrow> string option" where
  "string_replace_str s search replace = string_replace_loop s search replace 0"

text \<open>
  For stating what the loop computes: the pieces of the original text that the
  left-to-right scan keeps (before the first occurrence it finds, between one occurrence
  and the next found after it, and after the last), and texts joined with a separator.
\<close>

function kept_pieces :: "string \<Rightarrow> string \<Rightarrow> string list" where
  "kept_pieces search s =
     (if search = [] then [s]
      else case find_first search s of
             None \<Rightarrow> [s]
           | Some p \<Rightarrow> take p s # kept_pieces search (drop (p + length search) s))"
  by pat_completeness auto
termination
proof (relation "measure (\<lambda>(search, s). length s)")
  show "wf (measure (\<lambda>(search, s). length s))"
    by simp
next
  fix search s :: string and p :: nat
  assume ne: "search \<noteq> []" and found: "find_first search s = Some p"
  have "find_first search t = Some q \<Longrightarrow> q + length search \<le> length t" for t q
  proof (induction t arbitrary: q)
    case Nil
    then show ?case by (simp split: if_splits)
  next
    case (Cons x xs)
    show ?case
    proof (cases "prefix search (x # xs)")
      case True
      with Cons.prems prefix_length_le [of search "x # xs"] show ?thesis by simp
    next
      case False
      with Cons.prems obtain q' where "find_first search xs = Some q'" "q = Suc q'"
        by auto
      with Cons.IH show ?thesis by simp
    qed
  qed
  from this [OF found] have "p + length search \<le> length s" .
  moreover from ne have "0 < length search"
    by simp
  ultimately have "length s - (p + length search) < length s"
    by arith
  then show "((search, drop (p + length search) s), (search, s))
      \<in> measure (\<lambda>(search, s). length s)"
    by simp
qed

declare kept_pieces.simps [simp del]

fun join :: "string \<Rightarrow> string list \<Rightarrow> string" where
  "join sep [] = []"
| "join sep [t] = t"
| "join sep (t # ts) = t @ sep @ join sep ts"

section \<open>Component names and indices\<close>

type_synonym uint32_t = "32 word"

definition comp_val_to_abc :: "uint32_t \<Rightarrow> bool \<times> uint32_t \<times> uint32_t \<times> uint32_t" where
  "comp_val_to_abc val =
     (let c = val mod 9;
          b = (val div 9) mod 4;
          a = (val div 36) + 1
      in (a \<le> 2, a, b, c))"

definition comp_abc_to_val :: "uint32_t \<Rightarrow> uint32_t \<Rightarrow> uint32_t \<Rightarrow> uint32_t" where
  "comp_abc_to_val a b c = (a - 1) * 36 + (b * 9) + c"

text \<open>
  A \<open>const char *\<close> argument is modelled by the characters before its terminating NUL.
  \<open>c_str_at\<close> reads \<open>comp[i]\<close>; at the end of the text it reads the terminator.
  \<open>comp_str_parse\<close> never reads past the terminator: every test fails on a NUL and
  \<open>&&\<close> stops at the first test that fails.
\<close>

definition c_str_at :: "string \<Rightarrow> nat \<Rightarrow> char" where
  "c_str_at s i = (if i < length s then s ! i else CHR 0x00)"

text \<open>\<open>strncmp(s1, s2, n) == 0\<close>: the texts agree on their first \<open>n\<close> characters, or
  up to and including a common terminator before that.\<close>

fun strncmp_eq :: "string \<Rightarrow> string \<Rightarrow> nat \<Rightarrow> bool" where
  "strncmp_eq s1 s2 0 = True"
| "strncmp_eq s1 s2 (Suc n) =
     (if c_str_at s1 0 \<noteq> c_str_at s2 0 then False
      else if c_str_at s1 0 = CHR 0x00 then True
      else strncmp_eq (tl s1) (tl s2) n)"

definition isdigit :: "char \<Rightarrow> bool" where
  "isdigit ch \<longleftrightarrow> (48 :: nat) \<le> of_char ch \<and> (of_char ch :: nat) \<le> 57"

text \<open>\<open>comp[i] - '0'\<close>, computed in \<open>int\<close> and stored in a \<open>uint32_t\<close>.\<close>

definition digit_val :: "char \<Rightarrow> uint32_t" where
  "digit_val ch = of_char ch - 48"

text \<open>
  \<open>comp_str_parse\<close>: \<open>a\<close>, \<open>b\<close>, \<open>c\<close> are passed by reference; the result holds the
  returned flag and their values after the call.
\<close>

definition comp_str_parse ::
    "string \<Rightarrow> uint32_t \<Rightarrow> uint32_t \<Rightarrow> uint32_t \<Rightarrow> bool \<times> uint32_t \<times> uint32_t \<times> uint32_t" where
  "comp_str_parse str a b c =
     (if strncmp_eq str ''comp_'' 5 \<and>
         (c_str_at str 5 = CHR ''1'' \<or> c_str_at str 5 = CHR ''2'') \<and>
         c_str_at str 6 = CHR ''.'' \<and>
         isdigit (c_str_at str 7) \<and>
         c_str_at str 8 = CHR ''.'' \<and>
         isdigit (c_str_at str 9)
      then
        let a' = digit_val (c_str_at str 5);
            b' = digit_val (c_str_at str 7);
            c' = digit_val (c_str_at str 9)
        in (b' \<le> 3 \<and> c' \<le> 8, a', b', c')
      else (False, a, b, c))"

text \<open>The \<open>%u\<close> conversion of \<open>printf\<close>: decimal, no leading zeros.\<close>

fun dec_digits :: "nat \<Rightarrow> string" where
  "dec_digits n =
     (if n < 10 then [char_of (48 + n)]
      else dec_digits (n div 10) @ [char_of (48 + n mod 10)])"

definition fmt_u :: "uint32_t \<Rightarrow> string" where
  "fmt_u x = dec_digits (unat x)"

text \<open>
  \<open>vsnprintf\<close>, as the C library specifies it. One call either expands the format and
  its arguments to a text or reports an error; \<open>Some out\<close> and \<open>None\<close> stand for the
  two outcomes. The call returns the length of the whole expansion, or a negative value
  on error, and stores at most \<open>size - 1\<close> characters of the expansion in the buffer.
\<close>

definition vsnprintf_ret :: "string option \<Rightarrow> int" where
  "vsnprintf_ret r = (case r of None \<Rightarrow> - 1 | Some out \<Rightarrow> int (length out))"

definition vsnprintf_stored :: "string option \<Rightarrow> int \<Rightarrow> string" where
  "vsnprintf_stored r sz = (case r of None \<Rightarrow> [] | Some out \<Rightarrow> take (nat (sz - 1)) out)"

text \<open>
  \<open>string_formatv\<close>: the loop calls \<open>vsnprintf\<close> with the same \<open>va_list\<close> each time
  round, and only the first call finds the \<open>va_list\<close> as the caller prepared it. What a
  later call expands to is therefore not determined by the format and the arguments;
  \<open>vs k\<close> is the outcome of call number \<open>k\<close> of one run, whatever it is. The loop
  returns the first \<open>n\<close> stored characters when \<open>-1 < n < size\<close>, and otherwise goes
  round again with \<open>size = n + 1\<close>, or \<open>size * 2\<close> after an error. It has no bound of
  its own, so a run that never leaves it has the value \<open>None\<close>. \<open>int\<close> is not bounded
  here.
\<close>

partial_function (option) string_formatv_loop ::
    "(nat \<Rightarrow> string option) \<Rightarrow> nat \<Rightarrow> int \<Rightarrow> string option" where
  "string_formatv_loop vs k sz =
     (let n = vsnprintf_ret (vs k)
      in if n > - 1 \<and> n < sz then Some (take (nat n) (vsnprintf_stored (vs k) sz))
         else string_formatv_loop vs (Suc k) (if n > - 1 then n + 1 else sz * 2))"

declare string_formatv_loop.simps [code]

definition string_formatv :: "(nat \<Rightarrow> string option) \<Rightarrow> string option" where
  "string_formatv vs = string_formatv_loop vs 0 512"

text \<open>
  \<open>comp_str_create_abc\<close>: \<open>string_format( "comp_%u.%u.%u", a, b, c )\<close>. The first
  \<open>vsnprintf\<close> call expands the format with \<open>a\<close>, \<open>b\<close>, \<open>c\<close>; \<open>reuse k\<close> is the
  outcome of a later call number \<open>k\<close>, made on the used \<open>va_list\<close>.
\<close>

definition comp_str_create_abc ::
    "(nat \<Rightarrow> string option) \<Rightarrow> uint32_t \<Rightarrow> uint32_t \<Rightarrow> uint32_t \<Rightarrow> string option" where
  "comp_str_create_abc reuse a b c =
     string_formatv
       (\<lambda>k. if k = 0 then Some (''comp_'' @ fmt_u a @ ''.'' @ fmt_u b @ ''.'' @ fmt_u c)
            else reuse k)"

text \<open>
  The form \<open>comp_[1-2].[0-3].[0-8]\<close> with single-digit components, as a predicate
  on a whole text.
\<close>

definition comp_form :: "string \<Rightarrow> bool" where
  "comp_form s \<longleftrightarrow>
     length s = 10 \<and> take 5 s = ''comp_'' \<and>
     s ! 5 \<in> set ''12'' \<and> s ! 6 = CHR ''.'' \<and>
     s ! 7 \<in> set ''0123'' \<and> s ! 8 = CHR ''.'' \<and>
     s ! 9 \<in> set ''012345678''"

section \<open>Properties of the log routines\<close>

subsection \<open>The two loops\<close>

lemma foldl_log_push_back:
  "foldl log_push_back s xs = s\<lparr>g_log := g_log s @ xs\<rparr>"
proof (induction xs arbitrary: s)
  case Nil
  show ?case by simp
next
  case (Cons x xs)
  show ?case by (simp add: Cons.IH) (simp add: log_push_back_def)
qed

lemma foldl_free_str:
  "foldl free_str s xs = s\<lparr>freed := freed s @ xs\<rparr>"
proof (induction xs arbitrary: s)
  case Nil
  show ?case by simp
next
  case (Cons x xs)
  show ?case by (simp add: Cons.IH) (simp add: free_str_def)
qed

lemma logf_update_nonempty:
  "g_thread_log s \<noteq> [] \<Longrightarrow>
   logf_update s =
     s\<lparr>g_log := g_log s @ g_thread_log s, g_thread_log := [],
       events := events s @
         [SDL_LockMutex (g_mutex s), Thread_log_clear, SDL_UnlockMutex (g_mutex s)]\<rparr>"
  by (simp add: logf_update_def Let_def foldl_log_push_back lock_mutex_def unlock_mutex_def
      thread_log_clear_def)

lemma logf_update_empty: "g_thread_log s = [] \<Longrightarrow> logf_update s = s"
  by (simp add: logf_update_def)

lemma g_log_logf_update: "g_log (logf_update s) = g_log s @ g_thread_log s"
  by (cases "g_thread_log s = []") (simp_all add: logf_update_nonempty logf_update_empty)

lemma g_thread_log_logf_update: "g_thread_log (logf_update s) = []"
  by (cases "g_thread_log s = []") (simp_all add: logf_update_nonempty logf_update_empty)

lemma g_main_tid_logf_update: "g_main_tid (logf_update s) = g_main_tid s"
  by (cases "g_thread_log s = []") (simp_all add: logf_update_nonempty logf_update_empty)

subsection \<open>Drain\<close>

text \<open>
  C3: when the secondary buffer is non-empty, \<open>logf_update\<close> appends its entries, in
  order, to the end of the primary buffer and leaves the secondary buffer empty, locking
  the mutex, clearing the secondary buffer and unlocking the mutex in that order; when
  it is empty, \<open>logf_update\<close> returns the state as it is, so both buffers are unchanged
  and no mutex call is made.
\<close>

theorem logf_update_drains:
  "(g_thread_log s \<noteq> [] \<longrightarrow>
      g_log (logf_update s) = g_log s @ g_thread_log s \<and>
      g_thread_log (logf_update s) = [] \<and>
      events (logf_update s) =
        events s @
          [SDL_LockMutex (g_mutex s), Thread_log_clear, SDL_UnlockMutex (g_mutex s)]) \<and>
   (g_thread_log s = [] \<longrightarrow> logf_update s = s)"
  by (simp add: logf_update_nonempty logf_update_empty)

theorem logf_update_drains_witness:
  "g_log (logf_update (log_state_static\<lparr>g_log := [''a''], g_thread_log := [''b'', ''c'']\<rparr>))
     = [''a'', ''b'', ''c''] \<and>
   g_thread_log (logf_update (log_state_static\<lparr>g_log := [''a''], g_thread_log := [''b'', ''c'']\<rparr>))
     = [] \<and>
   logf_update (log_state_static\<lparr>g_log := [''a'']\<rparr>) = log_state_static\<lparr>g_log := [''a'']\<rparr>"
  using logf_update_drains [of "log_state_static\<lparr>g_log := [''a''], g_thread_log := [''b'', ''c'']\<rparr>"]
    logf_update_drains [of "log_state_static\<lparr>g_log := [''a'']\<rparr>"]
  by (simp add: log_state_static_def)

text \<open>
  C6: \<open>logf_update\<close> is idempotent: a second call with no append in between changes
  nothing, in either buffer or anywhere else in the state.
\<close>

theorem logf_update_idempotent:
  "logf_update (logf_update s) = logf_update s"
  by (simp add: logf_update_empty g_thread_log_logf_update)

subsection \<open>Append\<close>

text \<open>
  C5: when formatting leaves the buffer pointer null, \<open>logf\<close> changes nothing: the state
  after the call is the state before it, and the call returns nothing to its caller.
\<close>

theorem logf_null_noop: "logf s tid None = s"
  by (simp add: logf_def)

text \<open>
  C2: \<open>logf_init\<close> records the identifier of the calling thread. A \<open>logf\<close> call with a
  non-null buffer from that thread appends the entry to \<open>g_log\<close> and touches nothing
  else, so it makes no mutex call; a call from any other thread locks the mutex, then
  appends the entry to \<open>g_thread_log\<close>, then unlocks the mutex: the trace grows by
  exactly these three events in this order, and \<open>g_log\<close> is left as it was.
\<close>

theorem logf_routes:
  "g_main_tid (logf_init s0 tid0 m) = tid0 \<and>
   (tid = g_main_tid s \<longrightarrow>
      logf s tid (Some b) = s\<lparr>g_log := g_log s @ [b]\<rparr>) \<and>
   (tid \<noteq> g_main_tid s \<longrightarrow>
      logf s tid (Some b) = unlock_mutex (thread_log_push_back (lock_mutex s) b) \<and>
      logf s tid (Some b) =
        s\<lparr>g_thread_log := g_thread_log s @ [b],
          events := events s @
            [SDL_LockMutex (g_mutex s), Thread_log_push_back b,
             SDL_UnlockMutex (g_mutex s)]\<rparr> \<and>
      g_log (logf s tid (Some b)) = g_log s)"
  by (simp add: logf_def logf_init_def log_push_back_def thread_log_push_back_def
      lock_mutex_def unlock_mutex_def)

theorem logf_routes_witness:
  "logf (logf_init log_state_static 7 (Some 0)) 7 (Some ''ui'')
     = (logf_init log_state_static 7 (Some 0))\<lparr>g_log := [''ui'']\<rparr> \<and>
   logf (logf_init log_state_static 7 (Some 0)) 8 (Some ''worker'')
     = (logf_init log_state_static 7 (Some 0))
         \<lparr>g_thread_log := [''worker''],
          events :=
            [SDL_LockMutex (Some 0), Thread_log_push_back ''worker'',
             SDL_UnlockMutex (Some 0)]\<rparr>"
  using logf_routes [of log_state_static 7 "Some 0" 7 "logf_init log_state_static 7 (Some 0)" "''ui''"]
    logf_routes [of log_state_static 7 "Some 0" 8 "logf_init log_state_static 7 (Some 0)" "''worker''"]
  by (simp add: logf_init_def log_state_static_def thread_log_push_back_def
      lock_mutex_def unlock_mutex_def)

subsection \<open>Runs\<close>

lemma log_run_Nil: "log_run s [] = s"
  by (simp add: log_run_def)

lemma log_run_Cons: "log_run s (x # ops) = log_run (log_step s x) ops"
  by (simp add: log_run_def)

lemma log_run_append: "log_run s (xs @ ys) = log_run (log_run s xs) ys"
  by (simp add: log_run_def)

lemma logf_fields:
  "g_main_tid (logf s t buf) = g_main_tid s"
  "g_log (logf s t buf) =
     g_log s @ (case buf of None \<Rightarrow> [] | Some b \<Rightarrow> if t = g_main_tid s then [b] else [])"
  "g_thread_log (logf s t buf) =
     g_thread_log s @ (case buf of None \<Rightarrow> [] | Some b \<Rightarrow> if t = g_main_tid s then [] else [b])"
  by (simp_all add: logf_def log_push_back_def thread_log_push_back_def
      lock_mutex_def unlock_mutex_def split: option.splits)

lemma log_run_appends:
  "Drain \<notin> set ops \<Longrightarrow>
   g_main_tid (log_run s ops) = g_main_tid s \<and>
   g_log (log_run s ops) = g_log s @ main_entries (g_main_tid s) ops \<and>
   g_thread_log (log_run s ops) = g_thread_log s @ staged_entries (g_main_tid s) ops"
proof (induction ops arbitrary: s)
  case Nil
  show ?case by (simp add: log_run_Nil main_entries_def staged_entries_def)
next
  case (Cons x ops)
  from Cons.prems have nd: "Drain \<notin> set ops" and x: "x \<noteq> Drain" by auto
  from x obtain t buf where xa: "x = Append t buf" by (cases x) auto
  show ?case
    using Cons.IH [OF nd, of "logf s t buf"]
    by (cases buf) (simp_all add: xa log_run_Cons logf_fields main_entries_def staged_entries_def)
qed

lemma segments_not_Nil: "segments ops \<noteq> []"
  by (induction ops rule: segments.induct) simp_all

lemma segments_no_drain: "Drain \<notin> set ops \<Longrightarrow> segments ops = [ops]"
proof (induction ops rule: segments.induct)
  case 1
  show ?case by simp
next
  case (2 ops)
  then show ?case by simp
next
  case (3 t b ops)
  then show ?case by simp
qed

lemma segments_first_drain:
  "Drain \<notin> set seg \<Longrightarrow> segments (seg @ Drain # rest) = seg # segments rest"
proof (induction seg rule: segments.induct)
  case 1
  show ?case by simp
next
  case (2 ops)
  then show ?case by simp
next
  case (3 t b ops)
  then show ?case by simp
qed

lemma read_spec_no_drain: "Drain \<notin> set ops \<Longrightarrow> read_spec m ops = main_entries m ops"
  by (simp add: read_spec_def segments_no_drain)

lemma read_spec_first_drain:
  "Drain \<notin> set seg \<Longrightarrow>
   read_spec m (seg @ Drain # rest) = main_entries m seg @ staged_entries m seg @ read_spec m rest"
  by (simp add: read_spec_def segments_first_drain segments_not_Nil drained_segment_def)

lemma log_run_read_spec:
  "g_thread_log s = [] \<Longrightarrow> g_log (log_run s ops) = g_log s @ read_spec (g_main_tid s) ops"
proof (induction "length ops" arbitrary: ops s rule: less_induct)
  case less
  show ?case
  proof (cases "Drain \<in> set ops")
    case False
    then show ?thesis
      using log_run_appends [of ops s] by (simp add: read_spec_no_drain)
  next
    case True
    then obtain seg rest where ops: "ops = seg @ Drain # rest" and nd: "Drain \<notin> set seg"
      by (auto dest: split_list_first)
    let ?s' = "logf_update (log_run s seg)"
    have run: "log_run s ops = log_run ?s' rest"
      by (simp add: ops log_run_append log_run_Cons)
    have seg: "g_main_tid (log_run s seg) = g_main_tid s"
      "g_log (log_run s seg) = g_log s @ main_entries (g_main_tid s) seg"
      "g_thread_log (log_run s seg) = staged_entries (g_main_tid s) seg"
      using log_run_appends [OF nd, of s] less.prems by simp_all
    have "g_log (log_run ?s' rest) = g_log ?s' @ read_spec (g_main_tid ?s') rest"
      by (rule less.hyps) (simp_all add: ops g_thread_log_logf_update)
    moreover have "read_spec (g_main_tid s) ops =
        main_entries (g_main_tid s) seg @ staged_entries (g_main_tid s) seg
        @ read_spec (g_main_tid s) rest"
      by (simp add: ops read_spec_first_drain [OF nd])
    ultimately show ?thesis
      by (simp add: run g_log_logf_update g_main_tid_logf_update seg)
  qed
qed

text \<open>
  C1: started from the initialised log with both buffers empty, after any sequence of
  \<open>logf\<close> and \<open>logf_update\<close> calls \<open>logf_get\<close> returns the main-thread entries in
  call order with one whole batch inserted at each \<open>logf_update\<close>: the entries staged
  since the previous \<open>logf_update\<close>, in staging order. In particular, for main-thread
  appends A1 and A2, an append B1 from another thread and a \<open>logf_update\<close> after A1 and
  before A2, \<open>logf_get\<close> returns A1, B1, A2.
\<close>

theorem logf_get_read_spec:
  "logf_get (log_run (logf_init log_state_static tid m) ops) = read_spec tid ops \<and>
   (t \<noteq> tid \<longrightarrow>
      logf_get (log_run (logf_init log_state_static tid m)
        [Append tid (Some a1), Append t (Some b1), Drain, Append tid (Some a2)])
      = [a1, b1, a2])"
proof -
  let ?s = "logf_init log_state_static tid m"
  have s: "g_thread_log ?s = []" "g_log ?s = []" "g_main_tid ?s = tid"
    by (simp_all add: logf_init_def log_state_static_def)
  have gen: "logf_get (log_run ?s ops) = read_spec tid ops" for ops
    using log_run_read_spec [of ?s ops] by (simp add: s logf_get_def)
  have "t \<noteq> tid \<Longrightarrow>
      read_spec tid [Append tid (Some a1), Append t (Some b1), Drain, Append tid (Some a2)]
      = [a1, b1, a2]"
    by (simp add: read_spec_def drained_segment_def main_entries_def staged_entries_def)
  with gen show ?thesis by simp
qed

theorem logf_get_read_spec_witness:
  "logf_get (log_run (logf_init log_state_static 1 (Some 0))
        [Append 1 (Some ''A1''), Append 2 (Some ''B1''), Drain, Append 1 (Some ''A2'')])
      = [''A1'', ''B1'', ''A2'']"
  using logf_get_read_spec [of 1 "Some 0" "[]" 2 "''A1''" "''B1''" "''A2''"]
  by simp

subsection \<open>Clear and Read\<close>

lemma mset_entries_of_split:
  "mset (entries_of P ops) + mset (entries_of (\<lambda>t. \<not> P t) ops) = mset (entries_of (\<lambda>t. True) ops)"
  by (induction P ops rule: entries_of.induct) simp_all

lemma logf_clear_eq:
  "logf_clear s = (logf_update s)\<lparr>g_log := [], freed := freed s @ g_log s @ g_thread_log s\<rparr>"
proof -
  have "freed (logf_update s) = freed s"
    by (cases "g_thread_log s = []") (simp_all add: logf_update_nonempty logf_update_empty)
  then show ?thesis
    by (simp add: logf_clear_def Let_def foldl_free_str g_log_logf_update)
qed

text \<open>
  C4: \<open>logf_clear\<close> is \<open>logf_update\<close> followed by freeing every entry of the primary
  buffer, the staged ones included, and emptying it. After it \<open>logf_get\<close> returns the
  empty sequence and the secondary buffer is empty. After any further sequence of
  \<open>logf\<close> calls and one \<open>logf_update\<close>, \<open>logf_get\<close> returns exactly the entries of
  those calls (the main thread's in call order, then the staged batch in call order) and
  nothing from before the clear.
\<close>

theorem logf_clear_resets:
  "logf_clear s = (logf_update s)\<lparr>g_log := [], freed := freed s @ g_log s @ g_thread_log s\<rparr> \<and>
   logf_get (logf_clear s) = [] \<and>
   g_thread_log (logf_clear s) = [] \<and>
   (Drain \<notin> set ops \<longrightarrow>
      logf_get (logf_update (log_run (logf_clear s) ops))
        = main_entries (g_main_tid s) ops @ staged_entries (g_main_tid s) ops \<and>
      mset (logf_get (logf_update (log_run (logf_clear s) ops))) = mset (all_entries ops))"
proof -
  let ?c = "logf_clear s"
  have c: "g_log ?c = []" "g_thread_log ?c = []" "g_main_tid ?c = g_main_tid s"
    by (simp_all add: logf_clear_eq g_thread_log_logf_update g_main_tid_logf_update)
  have "logf_get (logf_update (log_run ?c ops))
        = main_entries (g_main_tid s) ops @ staged_entries (g_main_tid s) ops"
    if "Drain \<notin> set ops"
    using log_run_appends [OF that, of ?c] by (simp add: logf_get_def g_log_logf_update c)
  moreover have "mset (main_entries (g_main_tid s) ops @ staged_entries (g_main_tid s) ops)
      = mset (all_entries ops)"
    using mset_entries_of_split [of "\<lambda>t. t = g_main_tid s" ops]
    by (simp add: main_entries_def staged_entries_def all_entries_def)
  ultimately have "Drain \<notin> set ops \<longrightarrow>
      logf_get (logf_update (log_run ?c ops))
        = main_entries (g_main_tid s) ops @ staged_entries (g_main_tid s) ops \<and>
      mset (logf_get (logf_update (log_run ?c ops))) = mset (all_entries ops)"
    by simp
  moreover have "logf_get ?c = []"
    by (simp add: logf_get_def c)
  ultimately show ?thesis
    using logf_clear_eq [of s] c(2) by blast
qed

theorem logf_clear_resets_witness:
  "logf_get (logf_clear (log_state_static\<lparr>g_main_tid := 1, g_log := [''old''], g_thread_log := [''staged'']\<rparr>)) = [] \<and>
   logf_get (logf_update (log_run
       (logf_clear (log_state_static\<lparr>g_main_tid := 1, g_log := [''old''], g_thread_log := [''staged'']\<rparr>))
       [Append 2 (Some ''w''), Append 1 (Some ''m'')]))
     = [''m'', ''w'']"
proof -
  have nd: "Drain \<notin> set [Append 2 (Some ''w''), Append 1 (Some ''m'')]"
    by simp
  have tid: "g_main_tid (log_state_static\<lparr>g_main_tid := 1, g_log := [''old''], g_thread_log := [''staged'']\<rparr>) = 1"
    by simp
  from nd logf_clear_resets [of "log_state_static\<lparr>g_main_tid := 1, g_log := [''old''], g_thread_log := [''staged'']\<rparr>"
      "[Append 2 (Some ''w''), Append 1 (Some ''m'')]", THEN conjunct2]
  show ?thesis
    unfolding tid by (simp add: main_entries_def staged_entries_def)
qed

text \<open>
  C7, as stated, fails: an entry appended by the main thread after the most recent
  \<open>logf_update\<close> is returned by \<open>logf_get\<close> at once, with no further \<open>logf_update\<close>.
\<close>

theorem logf_get_sees_undrained_main_append:
  "logf_get (log_run (logf_init log_state_static 1 (Some 0)) [Drain]) = [] \<and>
   logf_get (log_run (logf_init log_state_static 1 (Some 0)) [Drain, Append 1 (Some ''x'')])
     = [''x'']"
  by (simp add: log_run_def logf_update_def logf_def logf_get_def logf_init_def
      log_state_static_def log_push_back_def)

text \<open>
  C7, amended: \<open>logf_get\<close> returns the primary buffer in insertion order. A \<open>logf\<close> call
  from a thread other than the main thread leaves what \<open>logf_get\<close> returns unchanged; a
  main-thread \<open>logf\<close> call with a non-null buffer shows at the end of it at once. Over
  any sequence of \<open>logf\<close> calls with no \<open>logf_update\<close>, \<open>logf_get\<close> grows by the
  main-thread entries only, and the entries staged by other threads show after the next
  \<open>logf_update\<close>.
\<close>

theorem logf_get_between_drains:
  "logf_get s = g_log s \<and>
   (t \<noteq> g_main_tid s \<longrightarrow> logf_get (logf s t buf) = logf_get s) \<and>
   logf_get (logf s (g_main_tid s) (Some b)) = logf_get s @ [b] \<and>
   (Drain \<notin> set ops \<longrightarrow>
      logf_get (log_run s ops) = logf_get s @ main_entries (g_main_tid s) ops \<and>
      logf_get (logf_update (log_run s ops))
        = logf_get s @ main_entries (g_main_tid s) ops
          @ g_thread_log s @ staged_entries (g_main_tid s) ops)"
proof -
  have "logf_get (log_run s ops) = logf_get s @ main_entries (g_main_tid s) ops \<and>
      logf_get (logf_update (log_run s ops))
        = logf_get s @ main_entries (g_main_tid s) ops
          @ g_thread_log s @ staged_entries (g_main_tid s) ops"
    if "Drain \<notin> set ops"
    using log_run_appends [OF that, of s] by (simp add: logf_get_def g_log_logf_update)
  then show ?thesis
    by (cases buf) (simp_all add: logf_get_def logf_fields)
qed

theorem logf_get_between_drains_witness:
  "logf_get (logf (log_state_static\<lparr>g_main_tid := 1\<rparr>) 2 (Some ''w'')) = [] \<and>
   logf_get (log_run (log_state_static\<lparr>g_main_tid := 1\<rparr>)
       [Append 2 (Some ''w''), Append 1 (Some ''m'')]) = [''m''] \<and>
   logf_get (logf_update (log_run (log_state_static\<lparr>g_main_tid := 1\<rparr>)
       [Append 2 (Some ''w''), Append 1 (Some ''m'')])) = [''m'', ''w'']"
  using logf_get_between_drains [of "log_state_static\<lparr>g_main_tid := 1\<rparr>" 2 "Some ''w''" "''m''"
      "[Append 2 (Some ''w''), Append 1 (Some ''m'')]"]
  by (simp add: main_entries_def staged_entries_def log_state_static_def logf_get_def)

section \<open>Properties of string replacement\<close>

lemma find_first_Some:
  "find_first search t = Some q \<Longrightarrow>
   q + length search \<le> length t \<and> take (length search) (drop q t) = search"
proof (induction t arbitrary: q)
  case Nil
  then show ?case by (simp split: if_splits)
next
  case (Cons x xs)
  show ?case
  proof (cases "prefix search (x # xs)")
    case True
    then obtain zs where "x # xs = search @ zs"
      by (auto simp: prefix_def)
    moreover from True Cons.prems have "q = 0"
      by simp
    ultimately show ?thesis
      using prefix_length_le [OF True] by simp
  next
    case False
    with Cons.prems obtain q' where "find_first search xs = Some q'" "q = Suc q'"
      by auto
    with Cons.IH show ?thesis by simp
  qed
qed

lemma find_first_None: "find_first search t = None \<longleftrightarrow> \<not> sublist search t"
proof (induction t)
  case Nil
  show ?case by simp
next
  case (Cons x xs)
  then show ?case by (simp add: sublist_Cons_right)
qed

lemma find_first_leftmost:
  "search \<noteq> [] \<Longrightarrow> find_first search t = Some q \<Longrightarrow> \<not> sublist search (take q t)"
proof (induction t arbitrary: q)
  case Nil
  then show ?case by simp
next
  case (Cons x xs)
  show ?case
  proof (cases "prefix search (x # xs)")
    case True
    with Cons.prems show ?thesis by simp
  next
    case False
    with Cons.prems obtain q' where q': "find_first search xs = Some q'" "q = Suc q'"
      by auto
    have "\<not> prefix search (x # take q' xs)"
    proof
      assume "prefix search (x # take q' xs)"
      moreover have "prefix (x # take q' xs) (x # xs)"
        by (simp add: take_is_prefix)
      ultimately have "prefix search (x # xs)"
        by (rule prefix_order.trans)
      with False show False by contradiction
    qed
    moreover have "\<not> sublist search (take q' xs)"
      using Cons.IH [OF Cons.prems(1) q'(1)] .
    ultimately show ?thesis
      by (simp add: q'(2) sublist_Cons_right)
  qed
qed

lemma kept_pieces_not_Nil: "kept_pieces search s \<noteq> []"
  by (subst kept_pieces.simps) (simp split: option.splits)

lemma join_Cons: "ts \<noteq> [] \<Longrightarrow> join sep (t # ts) = t @ sep @ join sep ts"
  by (cases ts) simp_all

lemma string_find_append:
  "string_find (pre @ t) search (length pre) =
     map_option (\<lambda>p. length pre + p) (find_first search t)"
  by (simp add: string_find_def)

lemma erase_insert_found:
  assumes "q + n \<le> length t"
  shows "string_insert (string_erase (pre @ t) (length pre + q) n) (length pre + q) replace
    = (pre @ take q t @ replace) @ drop (q + n) t"
proof -
  have "string_erase (pre @ t) (length pre + q) n = (pre @ take q t) @ drop (q + n) t"
    by (simp add: string_erase_def add.assoc)
  moreover have "length (pre @ take q t) = length pre + q"
    using assms by simp
  ultimately show ?thesis
    by (simp add: string_insert_def)
qed

lemma string_replace_loop_pieces:
  "search \<noteq> [] \<Longrightarrow>
   string_replace_loop (pre @ t) search replace (length pre)
     = Some (pre @ join replace (kept_pieces search t))"
proof (induction search t arbitrary: pre rule: kept_pieces.induct)
  case (1 search s)
  show ?case
  proof (cases "find_first search s")
    case None
    then show ?thesis
      using "1.prems"
      by (subst string_replace_loop.simps, subst kept_pieces.simps)
        (simp add: string_find_append)
  next
    case (Some q)
    let ?rest = "drop (q + length search) s"
    let ?pre' = "pre @ take q s @ replace"
    from find_first_Some [OF Some] have bound: "q + length search \<le> length s"
      by simp
    have step: "string_replace_loop (pre @ s) search replace (length pre)
        = string_replace_loop (?pre' @ ?rest) search replace (length ?pre')"
      using bound
      by (subst string_replace_loop.simps)
        (simp add: string_find_append Some erase_insert_found [OF bound] add.assoc)
    have "string_replace_loop (?pre' @ ?rest) search replace (length ?pre')
        = Some (?pre' @ join replace (kept_pieces search ?rest))"
      by (rule "1.IH" [OF "1.prems" Some "1.prems"])
    moreover have "kept_pieces search s = take q s # kept_pieces search ?rest"
      using "1.prems" Some by (subst kept_pieces.simps) simp
    ultimately show ?thesis
      by (simp add: step join_Cons kept_pieces_not_Nil)
  qed
qed

lemma join_kept_pieces: "search \<noteq> [] \<Longrightarrow> join search (kept_pieces search s) = s"
proof (induction search s rule: kept_pieces.induct)
  case (1 search s)
  show ?case
  proof (cases "find_first search s")
    case None
    then show ?thesis
      using "1.prems" by (subst kept_pieces.simps) simp
  next
    case (Some q)
    let ?rest = "drop (q + length search) s"
    have kp: "kept_pieces search s = take q s # kept_pieces search ?rest"
      using "1.prems" Some by (subst kept_pieces.simps) simp
    have "join search (kept_pieces search ?rest) = ?rest"
      by (rule "1.IH" [OF "1.prems" Some "1.prems"])
    moreover from find_first_Some [OF Some]
    have "take (length search) (drop q s) = search"
      by simp
    then have "s = take q s @ search @ ?rest"
      by (metis append_take_drop_id drop_drop add.commute)
    ultimately show ?thesis
      by (simp add: kp join_Cons kept_pieces_not_Nil)
  qed
qed

lemma kept_pieces_clean:
  "search \<noteq> [] \<Longrightarrow> t \<in> set (kept_pieces search s) \<Longrightarrow> \<not> sublist search t"
proof (induction search s rule: kept_pieces.induct)
  case (1 search s)
  show ?case
  proof (cases "find_first search s")
    case None
    then have "kept_pieces search s = [s]"
      using "1.prems"(1) by (subst kept_pieces.simps) simp
    with "1.prems"(2) None show ?thesis
      by (simp add: find_first_None)
  next
    case (Some q)
    let ?rest = "drop (q + length search) s"
    have kp: "kept_pieces search s = take q s # kept_pieces search ?rest"
      using "1.prems"(1) Some by (subst kept_pieces.simps) simp
    from "1.prems"(2) kp consider "t = take q s" | "t \<in> set (kept_pieces search ?rest)"
      by auto
    then show ?thesis
    proof cases
      case 1
      then show ?thesis
        using find_first_leftmost [OF "1.prems"(1) Some] by simp
    next
      case 2
      then show ?thesis
        by (rule "1.IH" [OF "1.prems"(1) Some "1.prems"(1)])
    qed
  qed
qed

text \<open>
  C10, amended: for a non-empty search string \<open>string_replace_str\<close> returns. The scan
  resumes after each inserted replacement, so what it finds does not depend on the
  replacement: the result is the pieces of the original text that the left-to-right scan
  keeps, joined by the replacement, where the original text is the same pieces joined by
  the search string. No kept piece contains the search string. (An occurrence of the
  search string in the result can still span a place where a replacement was inserted.)
\<close>

theorem string_replace_str_pieces:
  "search \<noteq> [] \<Longrightarrow>
   string_replace_str s search replace = Some (join replace (kept_pieces search s)) \<and>
   s = join search (kept_pieces search s) \<and>
   (\<forall>t \<in> set (kept_pieces search s). \<not> sublist search t)"
  using string_replace_loop_pieces [of search "[]" s replace]
  by (simp add: string_replace_str_def join_kept_pieces kept_pieces_clean)

theorem string_replace_str_pieces_witness:
  "string_replace_str ''abxabab'' ''ab'' ''ab-ab'' = Some ''ab-abxab-abab-ab''"
proof -
  have ne: "''ab'' \<noteq> []"
    by simp
  have kp: "kept_pieces ''ab'' ''abxabab'' = [[], ''x'', [], []]"
    by code_simp
  from string_replace_str_pieces [OF ne, of "''abxabab''" "''ab-ab''"] show ?thesis
    by (simp add: kp)
qed

text \<open>
  C10, as stated, fails in its last part: with an empty replacement no text is inserted,
  yet replacing \<open>ab\<close> in \<open>aabb\<close> returns \<open>ab\<close>, the search string itself.
\<close>

theorem string_replace_str_leaves_occurrence:
  "string_replace_str ''aabb'' ''ab'' [] = Some ''ab''"
  by code_simp

section \<open>Properties of the component codecs\<close>

subsection \<open>Indices\<close>

lemma nat_decode:
  fixes k b c :: nat
  assumes "b \<le> 3" "c \<le> 8"
  shows "(k * 36 + b * 9 + c) mod 9 = c"
    and "((k * 36 + b * 9 + c) div 9) mod 4 = b"
    and "(k * 36 + b * 9 + c) div 36 = k"
proof -
  have e: "k * 36 + b * 9 + c = (k * 4 + b) * 9 + c"
    by simp
  have c9: "c mod 9 = c" "c div 9 = 0" and b4: "b mod 4 = b"
    using assms by simp_all
  show "(k * 36 + b * 9 + c) mod 9 = c"
    unfolding e mod_mult_self3 c9 ..
  have d: "(k * 36 + b * 9 + c) div 9 = k * 4 + b"
    unfolding e using div_mult_self3 [of 9 "k * 4 + b" c] c9 by simp
  show "((k * 36 + b * 9 + c) div 9) mod 4 = b"
    unfolding d mod_mult_self3 b4 ..
  have "(b * 9 + c) div 36 = 0"
    using assms by simp
  then show "(k * 36 + b * 9 + c) div 36 = k"
    using div_mult_self3 [of 36 k "b * 9 + c"] by (simp add: add.assoc)
qed


lemma nat_range:
  fixes v :: nat
  shows "v div 36 + 1 \<le> 2 \<longleftrightarrow> v < 72"
  by arith

lemma nat_encode:
  fixes v :: nat
  shows "(v div 36) * 36 + ((v div 9) mod 4) * 9 + v mod 9 = v"
proof -
  have "v div 9 = (v div 36) * 4 + (v div 9) mod 4"
    using div_mult2_eq [of v 9 4] by (simp add: mult.commute)
  then have "(v div 36) * 36 + ((v div 9) mod 4) * 9 = (v div 9) * 9"
    by simp
  then show ?thesis by simp
qed

lemma unat_abc:
  fixes a b c :: uint32_t
  assumes "a = 1 \<or> a = 2" "b \<le> 3" "c \<le> 8"
  shows "unat (comp_abc_to_val a b c) = (unat a - 1) * 36 + unat b * 9 + unat c"
proof -
  have b: "unat b \<le> 3" and c: "unat c \<le> 8"
    using assms by (simp_all add: word_le_nat_alt)
  have "unat (comp_abc_to_val a b c) = (unat (a - 1) * 36 + unat b * 9 + unat c) mod 2 ^ 32"
    unfolding comp_abc_to_val_def by (simp only: unat_word_ariths mod_simps) simp
  moreover have "unat (a - 1) = unat a - 1" "unat a \<le> 2"
    using assms(1) by auto
  ultimately show ?thesis
    using b c by simp
qed

lemma unat_val_parts:
  fixes val :: uint32_t
  shows "unat (val mod 9) = unat val mod 9"
    and "unat ((val div 9) mod 4) = (unat val div 9) mod 4"
    and "unat ((val div 36) + 1) = unat val div 36 + 1"
proof -
  show "unat (val mod 9) = unat val mod 9" by (simp add: unat_mod)
  show "unat ((val div 9) mod 4) = (unat val div 9) mod 4" by (simp add: unat_mod unat_div)
  have "unat val < 2 ^ 32" using unsigned_less [of val] by simp
  then have "unat val div 36 + 1 < 2 ^ 32" by simp
  then show "unat ((val div 36) + 1) = unat val div 36 + 1"
    by (simp add: unat_word_ariths unat_div)
qed

lemma fst_val:
  fixes val :: uint32_t
  shows "fst (comp_val_to_abc val) \<longleftrightarrow> unat val < 72"
proof -
  have "fst (comp_val_to_abc val) \<longleftrightarrow> unat ((val div 36) + 1) \<le> 2"
    by (simp add: comp_val_to_abc_def Let_def word_le_nat_alt)
  then show ?thesis
    unfolding unat_val_parts nat_range .
qed

lemma val_abc:
  fixes a b c :: uint32_t
  assumes "a = 1 \<or> a = 2" "b \<le> 3" "c \<le> 8"
  shows "comp_val_to_abc (comp_abc_to_val a b c) = (True, a, b, c)"
proof -
  let ?v = "comp_abc_to_val a b c"
  have b: "unat b \<le> 3" and c: "unat c \<le> 8"
    using assms by (simp_all add: word_le_nat_alt)
  have a: "unat a - 1 + 1 = unat a" "unat a - 1 \<le> 1"
    using assms(1) by auto
  note v = unat_abc [OF assms]
  note d = nat_decode [OF b c, of "unat a - 1"]
  have "unat (?v mod 9) = unat c"
    unfolding unat_val_parts v d ..
  then have 1: "?v mod 9 = c"
    by (simp only: word_unat_eq_iff)
  have "unat ((?v div 9) mod 4) = unat b"
    unfolding unat_val_parts v d ..
  then have 2: "(?v div 9) mod 4 = b"
    by (simp only: word_unat_eq_iff)
  have "unat ((?v div 36) + 1) = unat a"
    unfolding unat_val_parts v d a ..
  then have 3: "(?v div 36) + 1 = a"
    by (simp only: word_unat_eq_iff)
  have 4: "a \<le> 2"
    using assms(1) by auto
  show ?thesis
    unfolding comp_val_to_abc_def Let_def 1 2 3 using 4 by simp
qed

lemma abc_val:
  fixes val :: uint32_t
  assumes "val \<le> 71"
  shows "comp_val_to_abc val = (True, val div 36 + 1, (val div 9) mod 4, val mod 9) \<and>
     comp_abc_to_val (val div 36 + 1) ((val div 9) mod 4) (val mod 9) = val"
proof -
  let ?a = "val div 36 + 1" and ?b = "(val div 9) mod 4" and ?c = "val mod 9"
  have v: "unat val < 72"
    using assms by (simp add: word_le_nat_alt)
  then have "unat val div 36 = 0 \<or> unat val div 36 = 1"
    by arith
  then have "unat ?a = unat (1 :: uint32_t) \<or> unat ?a = unat (2 :: uint32_t)"
    unfolding unat_val_parts by auto
  then have a: "?a = 1 \<or> ?a = 2"
    by (simp only: word_unat_eq_iff)
  have b: "?b \<le> 3"
    unfolding word_le_nat_alt unat_val_parts by simp
  have c: "?c \<le> 8"
    unfolding word_le_nat_alt unat_val_parts by simp
  have "unat (comp_abc_to_val ?a ?b ?c) = unat val"
    unfolding unat_abc [OF a b c] unat_val_parts by (simp add: nat_encode)
  then have "comp_abc_to_val ?a ?b ?c = val"
    by (simp only: word_unat_eq_iff)
  moreover have "fst (comp_val_to_abc val)"
    unfolding fst_val using v .
  ultimately show ?thesis
    by (simp add: comp_val_to_abc_def Let_def)
qed


text \<open>
  C8: for \<open>a\<close> in 1..2, \<open>b\<close> in 0..3 and \<open>c\<close> in 0..8, \<open>comp_val_to_abc\<close> applied to
  \<open>comp_abc_to_val a b c\<close> returns true and yields \<open>a\<close>, \<open>b\<close>, \<open>c\<close>; for every
  \<open>val\<close> in 0..71, \<open>comp_val_to_abc val\<close> returns true and \<open>comp_abc_to_val\<close> maps the
  decoded triple back to \<open>val\<close>; for every \<open>val\<close> from 72 on, \<open>comp_val_to_abc\<close>
  returns false.
\<close>

theorem comp_val_abc_roundtrip:
  fixes a b c val :: uint32_t
  shows "((a = 1 \<or> a = 2) \<and> b \<le> 3 \<and> c \<le> 8 \<longrightarrow>
            comp_val_to_abc (comp_abc_to_val a b c) = (True, a, b, c)) \<and>
         (val \<le> 71 \<longrightarrow>
            fst (comp_val_to_abc val) \<and>
            (case comp_val_to_abc val of (ok, a', b', c') \<Rightarrow> comp_abc_to_val a' b' c' = val)) \<and>
         (72 \<le> val \<longrightarrow> \<not> fst (comp_val_to_abc val))"
proof -
  have "\<not> fst (comp_val_to_abc val)" if "72 \<le> val"
    using that unfolding fst_val word_le_nat_alt by simp
  moreover have "fst (comp_val_to_abc val) \<and>
      (case comp_val_to_abc val of (ok, a', b', c') \<Rightarrow> comp_abc_to_val a' b' c' = val)"
    if "val \<le> 71"
    using abc_val [OF that] by simp
  ultimately show ?thesis
    using val_abc [of a b c] by blast
qed

theorem comp_val_abc_roundtrip_witness:
  "comp_val_to_abc (comp_abc_to_val 2 3 8) = (True, 2, 3, 8) \<and>
   comp_val_to_abc 71 = (True, 2, 3, 8) \<and> comp_abc_to_val 2 3 8 = 71 \<and>
   \<not> fst (comp_val_to_abc 72)"
proof -
  have h: "((2 :: uint32_t) = 1 \<or> (2 :: uint32_t) = 2) \<and> (3 :: uint32_t) \<le> 3 \<and> (8 :: uint32_t) \<le> 8"
    "(71 :: uint32_t) \<le> 71" "(72 :: uint32_t) \<le> 72"
    by simp_all
  have v: "comp_abc_to_val 2 3 8 = 71"
    by (simp add: comp_abc_to_val_def)
  from h comp_val_abc_roundtrip [of 2 3 8 71] comp_val_abc_roundtrip [of 2 3 8 72]
  show ?thesis
    by (simp add: v)
qed

subsection \<open>Names\<close>

lemma string_formatv_first:
  assumes "vs 0 = Some out" "length out < 512"
  shows "string_formatv vs = Some out"
  unfolding string_formatv_def
  by (subst string_formatv_loop.simps)
    (use assms in \<open>simp add: vsnprintf_ret_def vsnprintf_stored_def\<close>)

lemma strncmp_eq_prefix:
  "CHR 0x00 \<notin> set p \<Longrightarrow> strncmp_eq s p (length p) \<longleftrightarrow> prefix p s"
proof (induction p arbitrary: s)
  case Nil
  show ?case by simp
next
  case (Cons x xs)
  then show ?case
    by (cases s) (auto simp: c_str_at_def)
qed

lemma strncmp_comp: "strncmp_eq s ''comp_'' 5 \<longleftrightarrow> prefix ''comp_'' s"
proof -
  have len: "length ''comp_'' = 5"
    by simp
  have "CHR 0x00 \<notin> set ''comp_''"
    by simp
  from strncmp_eq_prefix [OF this, of s] show ?thesis
    unfolding len .
qed

lemma of_char_digit_iff:
  "(of_char ch :: nat) = 48 \<longleftrightarrow> ch = CHR ''0''"
  "(of_char ch :: nat) = 49 \<longleftrightarrow> ch = CHR ''1''"
  "(of_char ch :: nat) = 50 \<longleftrightarrow> ch = CHR ''2''"
  "(of_char ch :: nat) = 51 \<longleftrightarrow> ch = CHR ''3''"
  "(of_char ch :: nat) = 52 \<longleftrightarrow> ch = CHR ''4''"
  "(of_char ch :: nat) = 53 \<longleftrightarrow> ch = CHR ''5''"
  "(of_char ch :: nat) = 54 \<longleftrightarrow> ch = CHR ''6''"
  "(of_char ch :: nat) = 55 \<longleftrightarrow> ch = CHR ''7''"
  "(of_char ch :: nat) = 56 \<longleftrightarrow> ch = CHR ''8''"
  "(of_char ch :: nat) = 57 \<longleftrightarrow> ch = CHR ''9''"
  using of_char_eq_iff [of ch "CHR ''0''", where ?'a = nat]
    of_char_eq_iff [of ch "CHR ''1''", where ?'a = nat]
    of_char_eq_iff [of ch "CHR ''2''", where ?'a = nat]
    of_char_eq_iff [of ch "CHR ''3''", where ?'a = nat]
    of_char_eq_iff [of ch "CHR ''4''", where ?'a = nat]
    of_char_eq_iff [of ch "CHR ''5''", where ?'a = nat]
    of_char_eq_iff [of ch "CHR ''6''", where ?'a = nat]
    of_char_eq_iff [of ch "CHR ''7''", where ?'a = nat]
    of_char_eq_iff [of ch "CHR ''8''", where ?'a = nat]
    of_char_eq_iff [of ch "CHR ''9''", where ?'a = nat]
  by simp_all

lemma isdigit_nat: "isdigit ch \<longleftrightarrow> (of_char ch :: nat) \<in> {48, 49, 50, 51, 52, 53, 54, 55, 56, 57}"
proof -
  have "48 \<le> n \<and> n \<le> 57 \<longleftrightarrow> n \<in> {48, 49, 50, 51, 52, 53, 54, 55, 56, 57}" for n :: nat
    by (simp only: insert_iff empty_iff) arith
  then show ?thesis
    unfolding isdigit_def .
qed

lemma isdigit_iff: "isdigit ch \<longleftrightarrow> ch \<in> set ''0123456789''"
  unfolding isdigit_nat by (simp only: insert_iff empty_iff of_char_digit_iff list.set)

lemma digit_val_digits:
  "digit_val CHR ''0'' = 0" "digit_val CHR ''1'' = 1" "digit_val CHR ''2'' = 2"
  "digit_val CHR ''3'' = 3" "digit_val CHR ''4'' = 4" "digit_val CHR ''5'' = 5"
  "digit_val CHR ''6'' = 6" "digit_val CHR ''7'' = 7" "digit_val CHR ''8'' = 8"
  "digit_val CHR ''9'' = 9"
  by (simp_all add: digit_val_def)

lemma digit_cases:
  "ch \<in> set ''0123456789'' \<longleftrightarrow>
   ch = CHR ''0'' \<or> ch = CHR ''1'' \<or> ch = CHR ''2'' \<or> ch = CHR ''3'' \<or> ch = CHR ''4'' \<or>
   ch = CHR ''5'' \<or> ch = CHR ''6'' \<or> ch = CHR ''7'' \<or> ch = CHR ''8'' \<or> ch = CHR ''9''"
  by (simp only: list.set insert_iff empty_iff simp_thms)

lemma digit_le3: "isdigit ch \<and> digit_val ch \<le> 3 \<longleftrightarrow> ch \<in> set ''0123''"
proof
  assume "isdigit ch \<and> digit_val ch \<le> 3"
  then have d: "ch \<in> set ''0123456789''" and le: "digit_val ch \<le> 3"
    by (simp_all add: isdigit_iff)
  from d [unfolded digit_cases] le show "ch \<in> set ''0123''"
    by (elim disjE) (simp_all add: digit_val_digits)
next
  assume "ch \<in> set ''0123''"
  then have "ch = CHR ''0'' \<or> ch = CHR ''1'' \<or> ch = CHR ''2'' \<or> ch = CHR ''3''"
    by simp
  then show "isdigit ch \<and> digit_val ch \<le> 3"
    by (elim disjE) (simp_all add: digit_val_digits isdigit_def)
qed

lemma digit_le8: "isdigit ch \<and> digit_val ch \<le> 8 \<longleftrightarrow> ch \<in> set ''012345678''"
proof
  assume "isdigit ch \<and> digit_val ch \<le> 8"
  then have d: "ch \<in> set ''0123456789''" and le: "digit_val ch \<le> 8"
    by (simp_all add: isdigit_iff)
  from d [unfolded digit_cases] le show "ch \<in> set ''012345678''"
    by (elim disjE) (simp_all add: digit_val_digits)
next
  assume "ch \<in> set ''012345678''"
  then have "ch = CHR ''0'' \<or> ch = CHR ''1'' \<or> ch = CHR ''2'' \<or> ch = CHR ''3'' \<or>
      ch = CHR ''4'' \<or> ch = CHR ''5'' \<or> ch = CHR ''6'' \<or> ch = CHR ''7'' \<or> ch = CHR ''8''"
    by simp
  then show "isdigit ch \<and> digit_val ch \<le> 8"
    by (elim disjE) (simp_all add: digit_val_digits isdigit_def)
qed

lemma digit_12:
  assumes "isdigit ch" "digit_val ch = 1 \<or> digit_val ch = 2"
  shows "ch = CHR ''1'' \<or> ch = CHR ''2''"
  using assms(1) [unfolded isdigit_iff digit_cases] assms(2)
  by (elim disjE) (simp_all add: digit_val_digits)

lemma fmt_u_small:
  assumes "unat x < 10"
  shows "fmt_u x = [char_of (48 + unat x)]"
    and "isdigit (char_of (48 + unat x))"
    and "digit_val (char_of (48 + unat x)) = x"
proof -
  let ?d = "char_of (48 + unat x) :: char"
  show "fmt_u x = [?d]"
    using assms by (simp add: fmt_u_def)
  have n: "(of_char ?d :: nat) = 48 + unat x"
    using assms by simp
  then show "isdigit ?d"
    using assms by (simp add: isdigit_def)
  have "(of_char ?d :: uint32_t) = of_nat (of_char ?d :: nat)"
    by (simp only: of_nat_of_char)
  also have "\<dots> = 48 + x"
    by (simp only: n) simp
  finally show "digit_val ?d = x"
    by (simp add: digit_val_def)
qed

lemma comp_str_parse_fst:
  "fst (comp_str_parse s a b c) \<longleftrightarrow>
     prefix ''comp_'' s \<and> c_str_at s 5 \<in> set ''12'' \<and> c_str_at s 6 = CHR ''.'' \<and>
     c_str_at s 7 \<in> set ''0123'' \<and> c_str_at s 8 = CHR ''.'' \<and>
     c_str_at s 9 \<in> set ''012345678''"
proof -
  have "fst (comp_str_parse s a b c) \<longleftrightarrow>
      prefix ''comp_'' s \<and> (c_str_at s 5 = CHR ''1'' \<or> c_str_at s 5 = CHR ''2'') \<and>
      c_str_at s 6 = CHR ''.'' \<and>
      (isdigit (c_str_at s 7) \<and> digit_val (c_str_at s 7) \<le> 3) \<and>
      c_str_at s 8 = CHR ''.'' \<and>
      (isdigit (c_str_at s 9) \<and> digit_val (c_str_at s 9) \<le> 8)"
    unfolding comp_str_parse_def Let_def strncmp_comp by (simp only: fst_conv split: if_split) blast
  then show ?thesis
    unfolding digit_le3 digit_le8 by simp
qed

lemma c_str_at_take:
  "9 < length s \<Longrightarrow> i \<le> 9 \<Longrightarrow> c_str_at s i = take 10 s ! i"
  by (simp add: c_str_at_def)

lemma prefix_comp_take: "prefix ''comp_'' s \<longleftrightarrow> take 5 s = ''comp_''"
proof
  assume "prefix ''comp_'' s"
  then obtain zs where "s = ''comp_'' @ zs"
    by (auto simp: prefix_def)
  then show "take 5 s = ''comp_''"
    by simp
next
  assume "take 5 s = ''comp_''"
  then have "s = ''comp_'' @ drop 5 s"
    using append_take_drop_id [of 5 s] by simp
  then show "prefix ''comp_'' s"
    by (metis prefixI)
qed

lemma comp_str_parse_form:
  "fst (comp_str_parse s a b c) \<longleftrightarrow> comp_form (take 10 s)"
proof (cases "9 < length s")
  case True
  then have len: "length (take 10 s) = 10" and t5: "take 5 (take 10 s) = take 5 s"
    by simp_all
  show ?thesis
    unfolding comp_str_parse_fst comp_form_def len t5 prefix_comp_take
    by (simp only: c_str_at_take [OF True] order_refl numeral_le_iff semiring_norm simp_thms)
next
  case False
  then have "c_str_at s 9 = CHR 0x00"
    by (simp add: c_str_at_def)
  then have "\<not> fst (comp_str_parse s a b c)"
    unfolding comp_str_parse_fst by simp
  moreover from False have "\<not> comp_form (take 10 s)"
    by (simp add: comp_form_def)
  ultimately show ?thesis
    by simp
qed

lemma word_le_unat_less:
  fixes x :: uint32_t
  shows "x \<le> 3 \<Longrightarrow> unat x < 10" and "x \<le> 8 \<Longrightarrow> unat x < 10"
  by (simp_all add: word_le_nat_alt)

lemma comp_str_roundtrip:
  fixes a b c :: uint32_t
  assumes a: "a = 1 \<or> a = 2" and b: "b \<le> 3" and c: "c \<le> 8"
  shows "\<exists>str. comp_str_create_abc reuse a b c = Some str \<and>
      comp_str_parse str a0 b0 c0 = (True, a, b, c) \<and> comp_form str"
proof -
  let ?da = "char_of (48 + unat a) :: char"
  let ?db = "char_of (48 + unat b) :: char"
  let ?dc = "char_of (48 + unat c) :: char"
  let ?s = "''comp_'' @ [?da, CHR ''.'', ?db, CHR ''.'', ?dc]"
  from a have ua: "unat a < 10"
    by auto
  note fa = fmt_u_small [OF ua]
  note fb = fmt_u_small [OF word_le_unat_less(1) [OF b]]
  note fc = fmt_u_small [OF word_le_unat_less(2) [OF c]]
  have s: "comp_str_create_abc reuse a b c = Some ?s"
    unfolding comp_str_create_abc_def
    by (rule string_formatv_first) (simp_all add: fa(1) fb(1) fc(1))
  have at: "c_str_at ?s 5 = ?da" "c_str_at ?s 6 = CHR ''.''" "c_str_at ?s 7 = ?db"
    "c_str_at ?s 8 = CHR ''.''" "c_str_at ?s 9 = ?dc"
    by (simp_all add: c_str_at_def)
  have pre: "strncmp_eq ?s ''comp_'' 5"
    unfolding strncmp_comp by simp
  have da: "?da = CHR ''1'' \<or> ?da = CHR ''2''"
    using digit_12 [OF fa(2)] a fa(3) by simp
  have ok: "fst (comp_str_parse ?s a0 b0 c0)"
    unfolding comp_str_parse_fst at strncmp_comp [symmetric]
    using pre da digit_le3 [of ?db] digit_le8 [of ?dc] fb(2,3) fc(2,3) b c by simp
  have parse: "comp_str_parse ?s a0 b0 c0 = (True, a, b, c)"
    unfolding comp_str_parse_def Let_def at
    using pre da fa(2,3) fb(2,3) fc(2,3) b c by simp
  have "length ?s = 10"
    by simp
  then have "take 10 ?s = ?s"
    by simp
  with ok have "comp_form ?s"
    unfolding comp_str_parse_form by simp
  with s parse show ?thesis
    by blast
qed

text \<open>
  C9, amended: for \<open>a\<close> in 1..2, \<open>b\<close> in 0..3 and \<open>c\<close> in 0..8,
  \<open>comp_str_create_abc a b c\<close> returns a text, \<open>comp_str_parse\<close> applied to that text
  returns true and assigns \<open>a\<close>, \<open>b\<close>, \<open>c\<close>, and the text has the form
  \<open>comp_[1-2].[0-3].[0-8]\<close>. \<open>comp_str_parse\<close>
  examines the first ten characters only: it returns true exactly when they have that
  form, whatever follows them, and false for every other text.
\<close>

theorem comp_str_roundtrip_prefix:
  fixes a b c a0 b0 c0 :: uint32_t
  shows "((a = 1 \<or> a = 2) \<and> b \<le> 3 \<and> c \<le> 8 \<longrightarrow>
            (\<exists>str. comp_str_create_abc reuse a b c = Some str \<and>
               comp_str_parse str a0 b0 c0 = (True, a, b, c) \<and> comp_form str)) \<and>
         (fst (comp_str_parse s a0 b0 c0) \<longleftrightarrow> comp_form (take 10 s))"
  using comp_str_roundtrip [of a b c reuse a0 b0 c0] comp_str_parse_form [of s a0 b0 c0]
  by blast

theorem comp_str_roundtrip_prefix_witness:
  "(\<exists>str. comp_str_create_abc (\<lambda>k. None) 2 3 8 = Some str \<and>
      comp_str_parse str 0 0 0 = (True, 2, 3, 8) \<and> comp_form str) \<and>
   \<not> fst (comp_str_parse ''comp_1.4.0'' 0 0 0)"
proof -
  have h: "((2 :: uint32_t) = 1 \<or> (2 :: uint32_t) = 2) \<and> (3 :: uint32_t) \<le> 3 \<and> (8 :: uint32_t) \<le> 8"
    by simp
  have f: "\<not> comp_form (take 10 ''comp_1.4.0'')"
    by (simp add: comp_form_def)
  from h f comp_str_roundtrip_prefix [of 2 3 8 "\<lambda>k. None" 0 0 0 "''comp_1.4.0''"]
  show ?thesis
    by blast
qed

text \<open>
  C9, as stated, fails in its second part: \<open>comp_1.2.3x\<close> is not of the form
  \<open>comp_[1-2].[0-3].[0-8]\<close>, and \<open>comp_str_parse\<close> returns true on it.
\<close>

theorem comp_str_parse_accepts_longer:
  "\<not> comp_form ''comp_1.2.3x'' \<and> comp_str_parse ''comp_1.2.3x'' 0 0 0 = (True, 1, 2, 3)"
  by code_simp

end
